theory Spec2Isabelle
  imports Main
begin

section \<open>Values and arrays of the JavaScript source\<close>

text \<open>
  A square of the board holds \<^verbatim>\<open>null\<close>, \<^verbatim>\<open>'X'\<close> (written \<open>MarkX\<close>) or
  \<^verbatim>\<open>'O'\<close> (written \<open>MarkO\<close>). Reading an array past its end, or reading an
  empty slot, gives \<^verbatim>\<open>undefined\<close>; the value \<open>Undefined\<close> inside a list stands
  for such an empty slot (the source never stores \<^verbatim>\<open>undefined\<close> itself).
\<close>

datatype cell = Undefined | Null | MarkX | MarkO

text \<open>Truthiness: the two non-empty strings are truthy, \<^verbatim>\<open>null\<close> and \<^verbatim>\<open>undefined\<close> are not.\<close>

fun truthy :: "cell \<Rightarrow> bool" where
  "truthy MarkX = True"
| "truthy MarkO = True"
| "truthy Null = False"
| "truthy Undefined = False"

text \<open>\<^verbatim>\<open>squares[i]\<close> for a non-negative integer index.\<close>

definition js_get :: "cell list \<Rightarrow> nat \<Rightarrow> cell" where
  "js_get xs i = (if i < length xs then xs ! i else Undefined)"

text \<open>
  \<^verbatim>\<open>squares[i] = v\<close>: inside the array the slot is overwritten; past the end the
  array grows, the slots in between staying empty.
\<close>

definition js_set :: "cell list \<Rightarrow> nat \<Rightarrow> cell \<Rightarrow> cell list" where
  "js_set xs i v =
     (if i < length xs then xs[i := v]
      else xs @ replicate (i - length xs) Undefined @ [v])"

text \<open>\<^verbatim>\<open>squares.every(Boolean)\<close>: \<^verbatim>\<open>every\<close> does not visit empty slots.\<close>

definition every_Boolean :: "cell list \<Rightarrow> bool" where
  "every_Boolean xs = list_all (\<lambda>c. c = Undefined \<or> truthy c) xs"

text \<open>\<^verbatim>\<open>xs[m]\<close> for an integer \<open>m\<close> of any sign: \<open>None\<close> is \<^verbatim>\<open>undefined\<close>.\<close>

definition js_index :: "'a list \<Rightarrow> int \<Rightarrow> 'a option" where
  "js_index xs m = (if 0 \<le> m \<and> m < int (length xs) then Some (xs ! nat m) else None)"

text \<open>\<^verbatim>\<open>xs.slice(0, e)\<close>: a negative end counts from the end of the array.\<close>

definition js_slice0 :: "'a list \<Rightarrow> int \<Rightarrow> 'a list" where
  "js_slice0 xs e =
     (let n = int (length xs);
          k = (if e < 0 then max (n + e) 0 else min e n)
      in take (nat k) xs)"

text \<open>The remainder operator \<^verbatim>\<open>%\<close> truncates: the result has the sign of the dividend.\<close>

definition js_rem :: "int \<Rightarrow> int \<Rightarrow> int" where
  "js_rem a b = sgn a * (\<bar>a\<bar> mod \<bar>b\<bar>)"

section \<open>calculateWinner\<close>

record win =
  player :: cell
  line :: "nat list"

definition lines :: "(nat \<times> nat \<times> nat) list" where
  "lines =
    [(0, 1, 2),
     (3, 4, 5),
     (6, 7, 8),
     (0, 3, 6),
     (1, 4, 7),
     (2, 5, 8),
     (0, 4, 8),
     (2, 4, 6)]"

text \<open>The \<^verbatim>\<open>for ... of\<close> loop over the remaining triples.\<close>

fun scan_lines :: "cell list \<Rightarrow> (nat \<times> nat \<times> nat) list \<Rightarrow> win option" where
  "scan_lines squares [] = None"
| "scan_lines squares ((a, b, c) # rest) =
     (if truthy (js_get squares a) \<and> js_get squares a = js_get squares b
         \<and> js_get squares a = js_get squares c
      then Some \<lparr>player = js_get squares a, line = [a, b, c]\<rparr>
      else scan_lines squares rest)"

definition calculateWinner :: "cell list \<Rightarrow> win option" where
  "calculateWinner squares = scan_lines squares lines"

text \<open>A triple is complete when its three squares hold the same mark.\<close>

fun line_complete :: "cell list \<Rightarrow> nat \<times> nat \<times> nat \<Rightarrow> bool" where
  "line_complete squares (a, b, c) =
     ((js_get squares a = MarkX \<or> js_get squares a = MarkO)
      \<and> js_get squares b = js_get squares a \<and> js_get squares c = js_get squares a)"

text \<open>The triples as the rules of the game name them: rows, columns, diagonals.\<close>

definition rows_cols_diags :: "(nat \<times> nat \<times> nat) list" where
  "rows_cols_diags =
     map (\<lambda>r. (3 * r, 3 * r + 1, 3 * r + 2)) [0..<3]
     @ map (\<lambda>c. (c, c + 3, c + 6)) [0..<3]
     @ [(0, 4, 8), (2, 4, 6)]"

section \<open>The component state\<close>

text \<open>
  Arrays are objects: \<^verbatim>\<open>useMemo\<close> compares its dependency by identity, and
  \<^verbatim>\<open>handleSquareClick\<close> writes into an array. The store \<open>heap\<close> holds every board
  array ever allocated, an address being a position in it; \<open>history\<close> lists the
  addresses of the snapshots. \<open>memo\<close> is the cell of \<^verbatim>\<open>useMemo\<close>: the dependency
  and the value of the last computation.
\<close>

type_synonym addr = nat

record state =
  heap :: "cell list list"
  history :: "addr list"
  currentMove :: int
  isAscending :: bool
  memo :: "(addr \<times> win option) option"

datatype error = TypeError

text \<open>What one rendering of \<^verbatim>\<open>App\<close> computes before it returns its markup.\<close>

record view =
  xIsNext :: bool
  currentSquares :: addr
  result :: "win option"
  winner :: cell
  winningLine :: "nat list"
  isDraw :: bool

text \<open>\<^verbatim>\<open>useMemo(() => calculateWinner(currentSquares), [currentSquares])\<close>\<close>

definition useMemo :: "state \<Rightarrow> addr \<Rightarrow> win option" where
  "useMemo s cs =
     (case memo s of
        None \<Rightarrow> calculateWinner (heap s ! cs)
      | Some (dep, cached) \<Rightarrow>
          if dep = cs then cached else calculateWinner (heap s ! cs))"

text \<open>
  The body of \<^verbatim>\<open>App\<close>. When \<^verbatim>\<open>history[currentMove]\<close> is \<^verbatim>\<open>undefined\<close>,
  \<^verbatim>\<open>calculateWinner\<close> reads a property of \<^verbatim>\<open>undefined\<close> and throws.
\<close>

definition App :: "state \<Rightarrow> error + (view \<times> state)" where
  "App s =
     (case js_index (history s) (currentMove s) of
        None \<Rightarrow> Inl TypeError
      | Some cs \<Rightarrow>
          let r = useMemo s cs;
              w = (case r of None \<Rightarrow> Null
                   | Some res \<Rightarrow> if truthy (player res) then player res else Null);
              wl = (case r of None \<Rightarrow> [] | Some res \<Rightarrow> line res)
          in Inr (\<lparr>xIsNext = (js_rem (currentMove s) 2 = 0),
                    currentSquares = cs,
                    result = r,
                    winner = w,
                    winningLine = wl,
                    isDraw = (\<not> truthy w \<and> every_Boolean (heap s ! cs))\<rparr>,
                  s\<lparr>memo := Some (cs, r)\<rparr>))"

text \<open>The class of the status badge: \<^verbatim>\<open>winner ? 'win' : isDraw ? 'draw' : 'next'\<close>.\<close>

definition statusBadge :: "view \<Rightarrow> string" where
  "statusBadge v = (if truthy (winner v) then ''win'' else if isDraw v then ''draw'' else ''next'')"

definition handlePlay :: "state \<Rightarrow> addr \<Rightarrow> nat \<Rightarrow> state" where
  "handlePlay s nextSquares indexPlayed =
     (let nextHistory = js_slice0 (history s) (currentMove s + 1) @ [nextSquares]
      in s\<lparr>history := nextHistory, currentMove := int (length nextHistory) - 1\<rparr>)"

text \<open>
  \<^verbatim>\<open>handleSquareClick\<close> is a closure of one rendering: \<open>v\<close> holds the values it
  captured. \<^verbatim>\<open>currentSquares.slice()\<close> allocates a copy, the assignment writes
  into that copy only.
\<close>

definition handleSquareClick :: "state \<Rightarrow> view \<Rightarrow> nat \<Rightarrow> state" where
  "handleSquareClick s v index =
     (if truthy (winner v) \<or> truthy (js_get (heap s ! currentSquares v) index) then s
      else
        let nextSquares = length (heap s);
            s1 = s\<lparr>heap := heap s @ [heap s ! currentSquares v]\<rparr>;
            s2 = s1\<lparr>heap := (heap s1)
                   [nextSquares := js_set (heap s1 ! nextSquares) index
                                     (if xIsNext v then MarkX else MarkO)]\<rparr>
        in handlePlay s2 nextSquares index)"

definition jumpTo :: "state \<Rightarrow> int \<Rightarrow> state" where
  "jumpTo s move = s\<lparr>currentMove := move\<rparr>"

definition resetGame :: "state \<Rightarrow> state" where
  "resetGame s =
     s\<lparr>heap := heap s @ [replicate 9 Null],
       history := [length (heap s)],
       currentMove := 0\<rparr>"

text \<open>The state of the first rendering: the three \<^verbatim>\<open>useState\<close> initial values.\<close>

definition initial :: state where
  "initial = \<lparr>heap = [replicate 9 Null], history = [0], currentMove = 0,
              isAscending = True, memo = None\<rparr>"

text \<open>
  One user event: the handlers in use are those of the latest rendering, so the
  component is rendered on the state and the handler then runs on what it captured.
\<close>

datatype event = SquareClick nat | JumpTo int | Restart | ToggleOrder

definition dispatch :: "state \<Rightarrow> event \<Rightarrow> error + state" where
  "dispatch s e =
     (case App s of
        Inl err \<Rightarrow> Inl err
      | Inr (v, s1) \<Rightarrow>
          Inr (case e of
                 SquareClick i \<Rightarrow> handleSquareClick s1 v i
               | JumpTo m \<Rightarrow> jumpTo s1 m
               | Restart \<Rightarrow> resetGame s1
               | ToggleOrder \<Rightarrow> s1\<lparr>isAscending := \<not> isAscending s1\<rparr>))"

fun run :: "state \<Rightarrow> event list \<Rightarrow> error + state" where
  "run s [] = Inr s"
| "run s (e # es) = (case dispatch s e of Inl err \<Rightarrow> Inl err | Inr s1 \<Rightarrow> run s1 es)"

section \<open>Snapshots and well-formed states\<close>

text \<open>The snapshots of the history as values, and the active one.\<close>

definition boards :: "state \<Rightarrow> cell list list" where
  "boards s = map (\<lambda>a. heap s ! a) (history s)"

definition active :: "state \<Rightarrow> cell list" where
  "active s = heap s ! (history s ! nat (currentMove s))"

text \<open>A board has nine squares, each \<^verbatim>\<open>null\<close> or a mark.\<close>

definition is_board :: "cell list \<Rightarrow> bool" where
  "is_board b = (length b = 9 \<and> list_all (\<lambda>c. c = Null \<or> c = MarkX \<or> c = MarkO) b)"

text \<open>Every snapshot is an allocated array.\<close>

definition refs_ok :: "state \<Rightarrow> bool" where
  "refs_ok s = list_all (\<lambda>a. a < length (heap s)) (history s)"

text \<open>What \<^verbatim>\<open>useMemo\<close> remembers is the winner of the array it remembers it for.\<close>

definition memo_sound :: "state \<Rightarrow> bool" where
  "memo_sound s =
     (case memo s of
        None \<Rightarrow> True
      | Some (dep, cached) \<Rightarrow>
          dep < length (heap s) \<and> cached = calculateWinner (heap s ! dep))"

definition move_ok :: "state \<Rightarrow> bool" where
  "move_ok s = (0 \<le> currentMove s \<and> currentMove s < int (length (history s)))"

definition state_ok :: "state \<Rightarrow> bool" where
  "state_ok s = (refs_ok s \<and> memo_sound s \<and> move_ok s)"

definition store_ok :: "state \<Rightarrow> bool" where
  "store_ok s = (refs_ok s \<and> memo_sound s)"

section \<open>The invariant of the history\<close>

text \<open>
  The squares (of the nine) on which two boards differ. One step of the history is in
  order when at most one square differs, and that square went from \<^verbatim>\<open>null\<close> to a
  mark.
\<close>

definition changed :: "cell list \<Rightarrow> cell list \<Rightarrow> nat list" where
  "changed p n = filter (\<lambda>i. p ! i \<noteq> n ! i) [0..<9]"

definition step_ok :: "cell list \<Rightarrow> cell list \<Rightarrow> bool" where
  "step_ok p n =
     (length (changed p n) \<le> 1
      \<and> list_all (\<lambda>i. p ! i = Null \<and> (n ! i = MarkX \<or> n ! i = MarkO)) (changed p n))"

fun steps_ok :: "cell list list \<Rightarrow> bool" where
  "steps_ok [] = True"
| "steps_ok [b] = True"
| "steps_ok (p # n # bs) = (step_ok p n \<and> steps_ok (n # bs))"

text \<open>
  The first snapshot is the empty board, every snapshot has nine squares, and every
  step is in order.
\<close>

definition history_inv :: "state \<Rightarrow> bool" where
  "history_inv s =
     (boards s \<noteq> [] \<and> hd (boards s) = replicate 9 Null
      \<and> list_all (\<lambda>b. length b = 9) (boards s) \<and> steps_ok (boards s))"

text \<open>The events the interface can produce: a square of the board, a listed move.\<close>

fun in_range :: "state \<Rightarrow> event \<Rightarrow> bool" where
  "in_range s (SquareClick i) = (i < 9)"
| "in_range s (JumpTo m) = (0 \<le> m \<and> m < int (length (history s)))"
| "in_range s Restart = True"
| "in_range s ToggleOrder = True"

section \<open>What an event does to a well-formed state\<close>

text \<open>The state after a rendering: only the cell of \<^verbatim>\<open>useMemo\<close> is written.\<close>

definition rendered :: "state \<Rightarrow> state" where
  "rendered s = s\<lparr>memo := Some (history s ! nat (currentMove s), calculateWinner (active s))\<rparr>"

text \<open>The mark of the player to move, and the state after that mark is placed on square \<open>i\<close>.\<close>

definition turn :: "state \<Rightarrow> cell" where
  "turn s = (if even (currentMove s) then MarkX else MarkO)"

definition placed :: "state \<Rightarrow> nat \<Rightarrow> state" where
  "placed s i =
     (rendered s)\<lparr>heap := heap s @ [js_set (active s) i (turn s)],
                  history := take (nat (currentMove s) + 1) (history s) @ [length (heap s)],
                  currentMove := currentMove s + 1\<rparr>"

section \<open>Three games\<close>

text \<open>
  A game that ends in a draw (squares 0, 1, 2, 4, 3, 5, 7, 6, 8 in turn), a game that
  \<^verbatim>\<open>'X'\<close> wins on the top row (squares 0, 4, 1, 7, 2), and a game still open after
  five moves (squares 0, 4, 1, 7, 8).
\<close>

definition drawn_game :: state where
  "drawn_game =
     \<lparr>heap =
        [[Null, Null, Null, Null, Null, Null, Null, Null, Null],
         [MarkX, Null, Null, Null, Null, Null, Null, Null, Null],
         [MarkX, MarkO, Null, Null, Null, Null, Null, Null, Null],
         [MarkX, MarkO, MarkX, Null, Null, Null, Null, Null, Null],
         [MarkX, MarkO, MarkX, Null, MarkO, Null, Null, Null, Null],
         [MarkX, MarkO, MarkX, MarkX, MarkO, Null, Null, Null, Null],
         [MarkX, MarkO, MarkX, MarkX, MarkO, MarkO, Null, Null, Null],
         [MarkX, MarkO, MarkX, MarkX, MarkO, MarkO, Null, MarkX, Null],
         [MarkX, MarkO, MarkX, MarkX, MarkO, MarkO, MarkO, MarkX, Null],
         [MarkX, MarkO, MarkX, MarkX, MarkO, MarkO, MarkO, MarkX, MarkX]],
      history = [0, 1, 2, 3, 4, 5, 6, 7, 8, 9],
      currentMove = 9,
      isAscending = True,
      memo = Some (8, None)\<rparr>"

definition won_game :: state where
  "won_game =
     \<lparr>heap =
        [[Null, Null, Null, Null, Null, Null, Null, Null, Null],
         [MarkX, Null, Null, Null, Null, Null, Null, Null, Null],
         [MarkX, Null, Null, Null, MarkO, Null, Null, Null, Null],
         [MarkX, MarkX, Null, Null, MarkO, Null, Null, Null, Null],
         [MarkX, MarkX, Null, Null, MarkO, Null, Null, MarkO, Null],
         [MarkX, MarkX, MarkX, Null, MarkO, Null, Null, MarkO, Null]],
      history = [0, 1, 2, 3, 4, 5],
      currentMove = 5,
      isAscending = True,
      memo = Some (4, None)\<rparr>"

definition open_game :: state where
  "open_game =
     \<lparr>heap =
        [[Null, Null, Null, Null, Null, Null, Null, Null, Null],
         [MarkX, Null, Null, Null, Null, Null, Null, Null, Null],
         [MarkX, Null, Null, Null, MarkO, Null, Null, Null, Null],
         [MarkX, MarkX, Null, Null, MarkO, Null, Null, Null, Null],
         [MarkX, MarkX, Null, Null, MarkO, Null, Null, MarkO, Null],
         [MarkX, MarkX, Null, Null, MarkO, Null, Null, MarkO, MarkX]],
      history = [0, 1, 2, 3, 4, 5],
      currentMove = 5,
      isAscending = True,
      memo = Some (4, None)\<rparr>"

section \<open>The winner of a board\<close>

lemma truthy_iff: "truthy c \<longleftrightarrow> c = MarkX \<or> c = MarkO"
  by (cases c) simp_all

lemma scan_lines_find:
  "scan_lines sq ls =
     (case find (line_complete sq) ls of
        None \<Rightarrow> None
      | Some (a, b, c) \<Rightarrow> Some \<lparr>player = js_get sq a, line = [a, b, c]\<rparr>)"
proof (induction ls)
  case Nil
  show ?case by simp
next
  case (Cons l ls)
  obtain a b c where l: "l = (a, b, c)" by (cases l)
  show ?case
    unfolding l using Cons.IH by (auto simp: truthy_iff)
qed

lemma lines_rows_cols_diags: "lines = rows_cols_diags"
  by (simp add: lines_def rows_cols_diags_def upt_rec)

lemma calculateWinner_None_iff:
  "calculateWinner sq = None \<longleftrightarrow> (\<forall>l \<in> set lines. \<not> line_complete sq l)"
proof -
  have "calculateWinner sq = None \<longleftrightarrow> find (line_complete sq) lines = None"
    unfolding calculateWinner_def scan_lines_find by (simp split: option.splits prod.splits)
  then show ?thesis unfolding find_None_iff by blast
qed

lemma calculateWinner_player:
  assumes "calculateWinner sq = Some w"
  shows "truthy (player w)"
proof -
  from assms obtain l where f: "find (line_complete sq) lines = Some l"
    unfolding calculateWinner_def scan_lines_find by (simp split: option.splits)
  obtain a b c where l: "l = (a, b, c)" by (cases l)
  have "line_complete sq l" using f unfolding find_Some_iff by blast
  then have "truthy (js_get sq a)" unfolding l by (auto simp: truthy_iff)
  moreover have "player w = js_get sq a"
    using assms unfolding calculateWinner_def scan_lines_find f l by auto
  ultimately show ?thesis by simp
qed

lemma js_rem_2: "js_rem m 2 = 0 \<longleftrightarrow> even m"
  unfolding js_rem_def by (auto simp: sgn_if even_iff_mod_2_eq_zero abs_if)

lemma useMemo_sound:
  "memo_sound s \<Longrightarrow> useMemo s cs = calculateWinner (heap s ! cs)"
  unfolding memo_sound_def useMemo_def by (auto split: option.splits)

lemma js_index_move_ok:
  "move_ok s \<Longrightarrow> js_index (history s) (currentMove s) = Some (history s ! nat (currentMove s))"
  unfolding move_ok_def js_index_def by simp

lemma App_sound:
  assumes "memo_sound s" "move_ok s"
  shows "App s =
    Inr (\<lparr>xIsNext = even (currentMove s),
          currentSquares = history s ! nat (currentMove s),
          result = calculateWinner (active s),
          winner = (case calculateWinner (active s) of None \<Rightarrow> Null | Some w \<Rightarrow> player w),
          winningLine = (case calculateWinner (active s) of None \<Rightarrow> [] | Some w \<Rightarrow> line w),
          isDraw = (calculateWinner (active s) = None \<and> every_Boolean (active s))\<rparr>,
         s\<lparr>memo := Some (history s ! nat (currentMove s), calculateWinner (active s))\<rparr>)"
  unfolding App_def js_index_move_ok[OF assms(2)] useMemo_sound[OF assms(1)]
  by (auto simp: Let_def js_rem_2 active_def dest: calculateWinner_player split: option.splits)

lemma is_board_every_Boolean:
  "is_board b \<Longrightarrow> every_Boolean b \<longleftrightarrow> Null \<notin> set b"
  unfolding is_board_def every_Boolean_def list_all_iff by (auto simp: truthy_iff)

section \<open>Rendering and events\<close>

lemma App_rendered:
  assumes "memo_sound s" "move_ok s"
  shows "\<exists>v. App s = Inr (v, rendered s)"
  unfolding App_sound[OF assms] rendered_def by simp

lemma js_slice0_move_ok:
  assumes "0 \<le> m" "m < int (length xs)"
  shows "js_slice0 xs (m + 1) = take (Suc (nat m)) xs"
proof -
  have "\<not> m + 1 < 0" "min (m + 1) (int (length xs)) = m + 1" "nat (m + 1) = Suc (nat m)"
    using assms by auto
  then show ?thesis unfolding js_slice0_def Let_def by simp
qed

lemma handlePlay_move_ok:
  assumes "0 \<le> currentMove s" "currentMove s < int (length (history s))"
  shows "handlePlay s a i =
    s\<lparr>history := take (Suc (nat (currentMove s))) (history s) @ [a],
      currentMove := currentMove s + 1\<rparr>"
proof -
  have "int (min (length (history s)) (Suc (nat (currentMove s)))) = currentMove s + 1"
    using assms by auto
  then show ?thesis
    unfolding handlePlay_def js_slice0_move_ok[OF assms] Let_def by simp
qed

lemma dispatch_SquareClick:
  assumes "memo_sound s" "move_ok s"
  shows "dispatch s (SquareClick i) =
     Inr (if calculateWinner (active s) \<noteq> None \<or> truthy (js_get (active s) i)
          then rendered s else placed s i)"
proof -
  have m: "0 \<le> currentMove s" "currentMove s < int (length (history s))"
    using assms(2) unfolding move_ok_def by auto
  show ?thesis
  proof (cases "calculateWinner (active s)")
    case None
    then show ?thesis
      unfolding dispatch_def App_sound[OF assms]
      by (simp add: handleSquareClick_def handlePlay_move_ok m Let_def
          rendered_def placed_def turn_def active_def)
  next
    case (Some w)
    then have "truthy (player w)" by (rule calculateWinner_player)
    with Some show ?thesis
      unfolding dispatch_def App_sound[OF assms]
      by (simp add: handleSquareClick_def rendered_def)
  qed
qed

lemma dispatch_JumpTo:
  assumes "memo_sound s" "move_ok s"
  shows "dispatch s (JumpTo m) = Inr (jumpTo (rendered s) m)"
  unfolding dispatch_def App_sound[OF assms] by (simp add: rendered_def)

lemma dispatch_Restart:
  assumes "memo_sound s" "move_ok s"
  shows "dispatch s Restart = Inr (resetGame (rendered s))"
  unfolding dispatch_def App_sound[OF assms] by (simp add: rendered_def)

lemma dispatch_ToggleOrder:
  assumes "memo_sound s" "move_ok s"
  shows "dispatch s ToggleOrder = Inr ((rendered s)\<lparr>isAscending := \<not> isAscending s\<rparr>)"
  unfolding dispatch_def App_sound[OF assms] by (simp add: rendered_def)

lemma dispatch_Inr_move_ok:
  assumes "dispatch s e = Inr s'"
  shows "move_ok s"
proof -
  from assms have "js_index (history s) (currentMove s) \<noteq> None"
    unfolding dispatch_def App_def by (auto split: option.splits)
  then show ?thesis unfolding js_index_def move_ok_def by (simp split: if_splits)
qed

lemma rendered_simps [simp]:
  "heap (rendered s) = heap s" "history (rendered s) = history s"
  "currentMove (rendered s) = currentMove s" "isAscending (rendered s) = isAscending s"
  "boards (rendered s) = boards s" "active (rendered s) = active s"
  "refs_ok (rendered s) = refs_ok s" "move_ok (rendered s) = move_ok s"
  by (simp_all add: rendered_def boards_def active_def refs_ok_def move_ok_def)

lemma active_in_heap:
  "refs_ok s \<Longrightarrow> move_ok s \<Longrightarrow> history s ! nat (currentMove s) < length (heap s)"
proof -
  assume "refs_ok s" "move_ok s"
  then have "nat (currentMove s) < length (history s)" "\<forall>a \<in> set (history s). a < length (heap s)"
    unfolding refs_ok_def move_ok_def list_all_iff by auto
  then show ?thesis by simp
qed

lemma memo_sound_rendered:
  "refs_ok s \<Longrightarrow> move_ok s \<Longrightarrow> memo_sound (rendered s)"
  using active_in_heap[of s] by (simp add: memo_sound_def rendered_def active_def)

lemma active_boards: "move_ok s \<Longrightarrow> active s = boards s ! nat (currentMove s)"
proof -
  assume "move_ok s"
  then have "nat (currentMove s) < length (history s)"
    unfolding move_ok_def by auto
  then show ?thesis unfolding active_def boards_def by simp
qed

lemma boards_placed:
  assumes "refs_ok s" "move_ok s"
  shows "boards (placed s i) = take (nat (currentMove s) + 1) (boards s) @ [js_set (active s) i (turn s)]"
proof -
  have "\<And>a. a \<in> set (take (nat (currentMove s) + 1) (history s)) \<Longrightarrow> a < length (heap s)"
    using assms(1) unfolding refs_ok_def list_all_iff by (auto dest: in_set_takeD)
  then show ?thesis
    unfolding boards_def placed_def by (simp add: nth_append take_map)
qed

lemma placed_simps [simp]:
  "history (placed s i) = take (nat (currentMove s) + 1) (history s) @ [length (heap s)]"
  "currentMove (placed s i) = currentMove s + 1"
  "heap (placed s i) = heap s @ [js_set (active s) i (turn s)]"
  "isAscending (placed s i) = isAscending s"
  by (simp_all add: placed_def)

lemma state_ok_placed:
  assumes "refs_ok s" "move_ok s"
  shows "state_ok (placed s i)"
proof -
  have r: "refs_ok (placed s i)"
    using assms(1) unfolding refs_ok_def list_all_iff by (auto dest!: in_set_takeD simp: less_Suc_eq)
  have m: "move_ok (placed s i)"
    using assms(2) unfolding move_ok_def by auto
  have "memo_sound (placed s i)"
    using active_in_heap[OF assms]
    by (simp add: memo_sound_def placed_def rendered_def nth_append active_def)
  with r m show ?thesis unfolding state_ok_def by simp
qed

lemma state_ok_resetGame:
  assumes "memo_sound s"
  shows "state_ok (resetGame s)"
  using assms unfolding state_ok_def refs_ok_def move_ok_def memo_sound_def resetGame_def
  by (auto simp: nth_append split: option.splits)

lemma boards_resetGame: "boards (resetGame s) = [replicate 9 Null]"
  unfolding boards_def resetGame_def by simp

lemma jumpTo_simps [simp]:
  "heap (jumpTo s m) = heap s" "history (jumpTo s m) = history s"
  "currentMove (jumpTo s m) = m" "isAscending (jumpTo s m) = isAscending s"
  "memo (jumpTo s m) = memo s" "boards (jumpTo s m) = boards s"
  "refs_ok (jumpTo s m) = refs_ok s" "memo_sound (jumpTo s m) = memo_sound s"
  by (simp_all add: jumpTo_def boards_def refs_ok_def memo_sound_def split: option.splits)

text \<open>Every event keeps the snapshots allocated and the remembered winner right.\<close>

lemma store_ok_dispatch:
  assumes "store_ok s" "dispatch s e = Inr s'"
  shows "store_ok s'"
proof -
  have mv: "move_ok s" using assms(2) by (rule dispatch_Inr_move_ok)
  have r: "refs_ok s" and ms: "memo_sound s" using assms(1) unfolding store_ok_def by simp_all
  have msr: "memo_sound (rendered s)" using r mv by (rule memo_sound_rendered)
  show ?thesis
  proof (cases e)
    case (SquareClick i)
    then have "s' = rendered s \<or> s' = placed s i"
      using assms(2) dispatch_SquareClick[OF ms mv] by (auto split: if_splits)
    then show ?thesis
      using state_ok_placed[OF r mv, of i] msr r unfolding store_ok_def state_ok_def by auto
  next
    case (JumpTo m)
    then have "s' = jumpTo (rendered s) m"
      using assms(2) dispatch_JumpTo[OF ms mv] by simp
    then show ?thesis using msr r unfolding store_ok_def by simp
  next
    case Restart
    then have "s' = resetGame (rendered s)"
      using assms(2) dispatch_Restart[OF ms mv] by simp
    then show ?thesis using state_ok_resetGame[OF msr] unfolding store_ok_def state_ok_def by simp
  next
    case ToggleOrder
    then have "s' = (rendered s)\<lparr>isAscending := \<not> isAscending s\<rparr>"
      using assms(2) dispatch_ToggleOrder[OF ms mv] by simp
    then show ?thesis using msr r unfolding store_ok_def
      by (auto simp: refs_ok_def memo_sound_def split: option.splits)
  qed
qed

lemma store_ok_run:
  "store_ok s \<Longrightarrow> run s es = Inr s' \<Longrightarrow> store_ok s'"
proof (induction es arbitrary: s)
  case Nil
  then show ?case by simp
next
  case (Cons e es)
  then show ?case by (auto split: sum.splits dest: store_ok_dispatch)
qed

lemma store_ok_initial: "store_ok initial"
  by (simp add: store_ok_def initial_def refs_ok_def memo_sound_def)

section \<open>The three games are reachable and well formed\<close>

lemma drawn_game_reachable:
  "run initial (map SquareClick [0, 1, 2, 4, 3, 5, 7, 6, 8]) = Inr drawn_game"
  by code_simp

lemma won_game_reachable:
  "run initial (map SquareClick [0, 4, 1, 7, 2]) = Inr won_game"
  by code_simp

lemma open_game_reachable:
  "run initial (map SquareClick [0, 4, 1, 7, 8]) = Inr open_game"
  by code_simp

lemma state_ok_initial: "state_ok initial"
  by (simp add: state_ok_def refs_ok_def move_ok_def memo_sound_def initial_def)

lemma history_inv_initial: "history_inv initial"
  by (simp add: history_inv_def boards_def initial_def)

section \<open>The invariant is kept\<close>

lemma steps_ok_snoc:
  "steps_ok (bs @ [b]) \<longleftrightarrow> steps_ok bs \<and> (bs = [] \<or> step_ok (last bs) b)"
  by (induction bs rule: steps_ok.induct) auto

lemma steps_ok_take: "steps_ok bs \<Longrightarrow> steps_ok (take k bs)"
proof (induction bs arbitrary: k rule: steps_ok.induct)
  case 1
  then show ?case by simp
next
  case (2 b)
  then show ?case by (cases k) simp_all
next
  case (3 p n bs)
  show ?case
  proof (cases k)
    case 0
    then show ?thesis by simp
  next
    case (Suc j)
    have "steps_ok (take j (n # bs))" using 3 by simp
    then show ?thesis using 3(2) Suc by (cases j) simp_all
  qed
qed

lemma changed_update:
  assumes "length p = 9" "i < 9"
  shows "set (changed p (p[i := c])) \<subseteq> {i}"
  using assms unfolding changed_def by (auto simp: nth_list_update)

lemma length_changed_le:
  assumes "set (changed p n) \<subseteq> {i}"
  shows "length (changed p n) \<le> 1"
proof -
  have "distinct (changed p n)" unfolding changed_def by simp
  then have "length (changed p n) = card (set (changed p n))"
    by (simp add: distinct_card)
  also have "\<dots> \<le> card {i}" using assms by (intro card_mono) simp_all
  finally show ?thesis by simp
qed

lemma step_ok_update:
  assumes "length p = 9" "i < 9" "p ! i = Null" "c = MarkX \<or> c = MarkO"
  shows "step_ok p (p[i := c])"
proof -
  have sub: "set (changed p (p[i := c])) \<subseteq> {i}"
    using assms(1,2) by (rule changed_update)
  then have "length (changed p (p[i := c])) \<le> 1" by (rule length_changed_le)
  moreover have "list_all (\<lambda>j. p ! j = Null \<and> (p[i := c] ! j = MarkX \<or> p[i := c] ! j = MarkO))
                   (changed p (p[i := c]))"
    using sub assms unfolding list_all_iff by auto
  ultimately show ?thesis unfolding step_ok_def by simp
qed

lemma is_board_step:
  assumes "is_board p" "length n = 9" "step_ok p n"
  shows "is_board n"
proof -
  have "n ! j = Null \<or> n ! j = MarkX \<or> n ! j = MarkO" if "j < 9" for j
  proof (cases "p ! j = n ! j")
    case True
    then show ?thesis
      using assms(1) that unfolding is_board_def list_all_length by (metis)
  next
    case False
    with that have "j \<in> set (changed p n)" unfolding changed_def by simp
    then show ?thesis using assms(3) unfolding step_ok_def list_all_iff by blast
  qed
  then show ?thesis using assms(2) unfolding is_board_def list_all_length by simp
qed

lemma steps_ok_is_board:
  "bs \<noteq> [] \<Longrightarrow> is_board (hd bs) \<Longrightarrow> list_all (\<lambda>b. length b = 9) bs \<Longrightarrow> steps_ok bs
     \<Longrightarrow> list_all is_board bs"
proof (induction bs rule: steps_ok.induct)
  case 1
  then show ?case by simp
next
  case (2 b)
  then show ?case by simp
next
  case (3 p n bs)
  then have "is_board n" by (auto intro: is_board_step)
  with 3 show ?case by simp
qed

lemma history_inv_is_board:
  assumes "history_inv s"
  shows "list_all is_board (boards s)"
proof -
  have "is_board (hd (boards s))"
    using assms unfolding history_inv_def by (simp add: is_board_def list_all_iff)
  with assms show ?thesis unfolding history_inv_def by (auto intro: steps_ok_is_board)
qed

lemma history_inv_active:
  assumes "history_inv s" "move_ok s"
  shows "is_board (active s)"
proof -
  have "nat (currentMove s) < length (boards s)"
    using assms(2) unfolding move_ok_def boards_def by auto
  then show ?thesis
    using history_inv_is_board[OF assms(1)] unfolding active_boards[OF assms(2)] list_all_length
    by simp
qed

lemma history_inv_placed:
  assumes "refs_ok s" "move_ok s" "history_inv s" "i < 9" "\<not> truthy (js_get (active s) i)"
  shows "history_inv (placed s i)"
proof -
  let ?k = "nat (currentMove s) + 1"
  let ?bs = "take ?k (boards s)"
  have b: "is_board (active s)" using assms(3,2) by (rule history_inv_active)
  then have len: "length (active s) = 9" unfolding is_board_def by simp
  have empty: "active s ! i = Null"
    using b assms(4,5) unfolding is_board_def list_all_length js_get_def
    by (auto simp: truthy_iff)
  have set: "js_set (active s) i (turn s) = (active s)[i := turn s]"
    using len assms(4) unfolding js_set_def by simp
  have k: "nat (currentMove s) < length (boards s)"
    using assms(2) unfolding move_ok_def boards_def by auto
  then have ne: "?bs \<noteq> []" by auto
  have last: "last ?bs = active s"
    using k unfolding active_boards[OF assms(2)]
    by (simp add: take_Suc_conv_app_nth)
  have hd: "hd ?bs = replicate 9 Null"
    using assms(3) ne unfolding history_inv_def by simp
  have lens: "list_all (\<lambda>b. length b = 9) ?bs"
    using assms(3) unfolding history_inv_def list_all_iff by (auto dest: in_set_takeD)
  have steps: "steps_ok ?bs"
    using assms(3) unfolding history_inv_def by (simp add: steps_ok_take)
  have step: "step_ok (active s) ((active s)[i := turn s])"
    using len assms(4) empty by (rule step_ok_update) (simp add: turn_def)
  show ?thesis
    unfolding history_inv_def boards_placed[OF assms(1,2)] set
    using ne hd lens steps step last len by (simp add: steps_ok_snoc)
qed

lemma history_inv_resetGame: "history_inv (resetGame s)"
  unfolding history_inv_def boards_resetGame by simp

lemma history_inv_cong:
  "boards s' = boards s \<Longrightarrow> history_inv s' = history_inv s"
  unfolding history_inv_def by simp

section \<open>Clicks after a restart\<close>

lemma clicks_from_reset:
  assumes "state_ok s" "history s \<noteq> []" "currentMove s = int (length (history s)) - 1"
    and "\<forall>k. 1 \<le> k \<and> k < length (boards s) \<longrightarrow>
           (\<exists>i. \<not> truthy (js_get (boards s ! (k - 1)) i)
              \<and> boards s ! k = js_set (boards s ! (k - 1)) i (if odd k then MarkX else MarkO))"
  shows "\<exists>s'. run s (map SquareClick ks) = Inr s'
     \<and> (\<forall>k. 1 \<le> k \<and> k < length (boards s') \<longrightarrow>
           (\<exists>i. \<not> truthy (js_get (boards s' ! (k - 1)) i)
              \<and> boards s' ! k = js_set (boards s' ! (k - 1)) i (if odd k then MarkX else MarkO)))"
  using assms
proof (induction ks arbitrary: s)
  case Nil
  then show ?case by simp
next
  case (Cons i ks)
  have r: "refs_ok s" and ms: "memo_sound s" and mv: "move_ok s"
    using Cons.prems(1) unfolding state_ok_def by simp_all
  have msr: "memo_sound (rendered s)" using r mv by (rule memo_sound_rendered)
  show ?case
  proof (cases "calculateWinner (active s) \<noteq> None \<or> truthy (js_get (active s) i)")
    case True
    have "state_ok (rendered s)" using msr r mv unfolding state_ok_def by simp
    from Cons.IH[OF this] Cons.prems(2,3,4) True show ?thesis
      by (simp add: dispatch_SquareClick[OF ms mv])
  next
    case False
    let ?n = "length (history s)"
    have n: "nat (currentMove s) + 1 = ?n" "0 < ?n"
      using Cons.prems(2,3) by (cases "history s"; simp)+
    have len: "length (boards s) = ?n" unfolding boards_def by simp
    have b: "boards (placed s i) = boards s @ [js_set (active s) i (turn s)]"
      unfolding boards_placed[OF r mv] n using len by simp
    have "nat (currentMove s) = ?n - 1" using n by simp
    then have a: "active s = boards s ! (?n - 1)"
      unfolding active_boards[OF mv] by simp
    have t: "turn s = (if odd ?n then MarkX else MarkO)"
      unfolding turn_def using Cons.prems(3) n(2) by (cases ?n) auto
    have alt: "\<exists>j. \<not> truthy (js_get (boards (placed s i) ! (k - 1)) j)
              \<and> boards (placed s i) ! k
                  = js_set (boards (placed s i) ! (k - 1)) j (if odd k then MarkX else MarkO)"
      if k: "1 \<le> k \<and> k < length (boards (placed s i))" for k
    proof (cases "k < ?n")
      case True
      then have "k - 1 < length (boards s)" "k < length (boards s)" using len by simp_all
      then have "boards (placed s i) ! k = boards s ! k"
        "boards (placed s i) ! (k - 1) = boards s ! (k - 1)"
        unfolding b by (simp_all add: nth_append)
      moreover have "\<exists>j. \<not> truthy (js_get (boards s ! (k - 1)) j)
              \<and> boards s ! k = js_set (boards s ! (k - 1)) j (if odd k then MarkX else MarkO)"
        using Cons.prems(4) k True len by simp
      ultimately show ?thesis by simp
    next
      case False
      with k have kn: "k = ?n" unfolding b using len by simp
      have "k - 1 < length (boards s)" using kn len n(2) by simp
      then have "boards (placed s i) ! k = js_set (active s) i (if odd k then MarkX else MarkO)"
        "boards (placed s i) ! (k - 1) = active s"
        unfolding b a t using len kn by (simp_all add: nth_append)
      moreover have "\<not> truthy (js_get (active s) i)"
        using \<open>\<not> (calculateWinner (active s) \<noteq> None \<or> truthy (js_get (active s) i))\<close>
        by simp
      ultimately show ?thesis by auto
    qed
    have "state_ok (placed s i)" using r mv by (rule state_ok_placed)
    moreover have "history (placed s i) \<noteq> []" by simp
    moreover have "currentMove (placed s i) = int (length (history (placed s i))) - 1"
      using Cons.prems(3) n by simp
    ultimately have "\<exists>s'. run (placed s i) (map SquareClick ks) = Inr s'
     \<and> (\<forall>k. 1 \<le> k \<and> k < length (boards s') \<longrightarrow>
           (\<exists>i. \<not> truthy (js_get (boards s' ! (k - 1)) i)
              \<and> boards s' ! k = js_set (boards s' ! (k - 1)) i (if odd k then MarkX else MarkO)))"
      using alt by (intro Cons.IH) blast+
    with False show ?thesis by (simp add: dispatch_SquareClick[OF ms mv])
  qed
qed

section \<open>The claims\<close>

text \<open>
  Claim C1. \<^verbatim>\<open>calculateWinner\<close> tries eight triples: the three rows from the top,
  the three columns from the left, the diagonal from the top left and the diagonal
  from the top right. On a board where some triple holds three equal marks it returns
  the first such triple in that order, with the mark that fills it.
\<close>

theorem calculateWinner_first_complete:
  "lines = rows_cols_diags \<and> length lines = 8 \<and>
   ((\<exists>l \<in> set lines. line_complete sq l) \<longrightarrow>
    (\<exists>i a b c. i < length lines \<and> lines ! i = (a, b, c)
       \<and> line_complete sq (a, b, c)
       \<and> (\<forall>j<i. \<not> line_complete sq (lines ! j))
       \<and> calculateWinner sq = Some \<lparr>player = js_get sq a, line = [a, b, c]\<rparr>))"
proof (intro conjI impI)
  show "lines = rows_cols_diags" by (rule lines_rows_cols_diags)
  show "length lines = 8" by (simp add: lines_def)
  assume "\<exists>l \<in> set lines. line_complete sq l"
  then have "find (line_complete sq) lines \<noteq> None"
    unfolding find_None_iff by blast
  then obtain l where f: "find (line_complete sq) lines = Some l"
    by blast
  obtain a b c where l: "l = (a, b, c)" by (cases l)
  from f obtain i where i: "i < length lines" "line_complete sq (lines ! i)"
      "l = lines ! i" "\<forall>j<i. \<not> line_complete sq (lines ! j)"
    unfolding find_Some_iff by blast
  have "calculateWinner sq = Some \<lparr>player = js_get sq a, line = [a, b, c]\<rparr>"
    unfolding calculateWinner_def scan_lines_find f l by simp
  with i l show "\<exists>i a b c. i < length lines \<and> lines ! i = (a, b, c)
       \<and> line_complete sq (a, b, c)
       \<and> (\<forall>j<i. \<not> line_complete sq (lines ! j))
       \<and> calculateWinner sq = Some \<lparr>player = js_get sq a, line = [a, b, c]\<rparr>"
    by metis
qed

theorem calculateWinner_first_complete_witness:
  "calculateWinner [MarkO, MarkO, MarkO, MarkX, MarkX, MarkX, Null, Null, Null]
     = Some \<lparr>player = MarkO, line = [0, 1, 2]\<rparr>"
proof -
  let ?sq = "[MarkO, MarkO, MarkO, MarkX, MarkX, MarkX, Null, Null, Null]"
  have first: "line_complete ?sq (lines ! 0)"
    by (simp add: lines_def js_get_def)
  then have "\<exists>l \<in> set lines. line_complete ?sq l"
    by (simp add: lines_def)
  with calculateWinner_first_complete[of ?sq] obtain i a b c where
    i: "lines ! i = (a, b, c)" "\<forall>j<i. \<not> line_complete ?sq (lines ! j)"
    and w: "calculateWinner ?sq = Some \<lparr>player = js_get ?sq a, line = [a, b, c]\<rparr>"
    by blast
  from first i(2) have "i = 0" by (cases i) auto
  with i(1) have "a = 0" "b = 1" "c = 2" by (simp_all add: lines_def)
  with w show ?thesis by (simp add: js_get_def)
qed

text \<open>
  Claim C2. On a board where no triple holds three equal marks, the rendering reports
  no winner; it reports a draw when no square is empty, and the next player when some
  square is empty.
\<close>

theorem no_line_draw_or_next:
  assumes "memo_sound s" and "move_ok s" and "is_board (active s)"
    and "\<forall>l \<in> set lines. \<not> line_complete (active s) l"
  shows "\<exists>v s'. App s = Inr (v, s') \<and> result v = None \<and> winner v = Null
           \<and> isDraw v = (Null \<notin> set (active s))
           \<and> statusBadge v = (if Null \<in> set (active s) then ''next'' else ''draw'')"
proof -
  have n: "calculateWinner (active s) = None"
    using assms(4) by (simp add: calculateWinner_None_iff)
  show ?thesis
    unfolding App_sound[OF assms(1,2)] n
    by (simp add: statusBadge_def is_board_every_Boolean[OF assms(3)])
qed

theorem no_line_draw_or_next_witness:
  "\<exists>v s'. App drawn_game = Inr (v, s') \<and> result v = None \<and> winner v = Null
      \<and> isDraw v \<and> statusBadge v = ''draw''"
proof -
  have a: "active drawn_game = [MarkX, MarkO, MarkX, MarkX, MarkO, MarkO, MarkO, MarkX, MarkX]"
    by (simp add: active_def drawn_game_def)
  have 1: "memo_sound drawn_game" by (simp add: memo_sound_def drawn_game_def calculateWinner_def lines_def js_get_def)
  have 2: "move_ok drawn_game" by (simp add: move_ok_def drawn_game_def)
  have 3: "is_board (active drawn_game)" unfolding a by (simp add: is_board_def)
  have 4: "\<forall>l \<in> set lines. \<not> line_complete (active drawn_game) l"
    unfolding a by (simp add: lines_def js_get_def)
  show ?thesis using no_line_draw_or_next[OF 1 2 3 4] unfolding a by simp
qed

text \<open>
  Claim C3. On a well-formed state whose active snapshot is a board, a click on one of
  the nine squares is ignored when the board is won or drawn or the square already
  holds a mark: the rendering succeeds, and the click leaves the history, the current
  move and every array as they are.
\<close>

theorem ignored_click_no_op:
  assumes "state_ok s" and "is_board (active s)" and "index < 9"
  shows "\<exists>v s1. App s = Inr (v, s1)
           \<and> (statusBadge v \<noteq> ''next'' \<or> truthy (js_get (active s) index) \<longrightarrow>
                dispatch s (SquareClick index) = Inr s1
                \<and> history s1 = history s \<and> currentMove s1 = currentMove s
                \<and> heap s1 = heap s)"
proof -
  have ms: "memo_sound s" and mv: "move_ok s"
    using assms(1) unfolding state_ok_def by simp_all
  obtain v where v: "App s = Inr (v, rendered s)"
    using App_rendered[OF ms mv] by blast
  have "dispatch s (SquareClick index) = Inr (rendered s)"
    if c: "statusBadge v \<noteq> ''next'' \<or> truthy (js_get (active s) index)"
  proof -
    have "calculateWinner (active s) \<noteq> None \<or> truthy (js_get (active s) index)"
    proof (rule ccontr)
      assume "\<not> ?thesis"
      then have n: "calculateWinner (active s) = None"
        and e: "\<not> truthy (js_get (active s) index)"
        by simp_all
      have "index < length (active s)" using assms(2,3) unfolding is_board_def by simp
      moreover from this e assms(2) have "active s ! index = Null"
        unfolding is_board_def list_all_length js_get_def by (auto simp: truthy_iff)
      ultimately have "Null \<in> set (active s)" by (metis nth_mem)
      then have "\<not> every_Boolean (active s)"
        using is_board_every_Boolean[OF assms(2)] by simp
      with n v have "statusBadge v = ''next''"
        unfolding App_sound[OF ms mv] by (auto simp: statusBadge_def)
      with c e show False by simp
    qed
    then show ?thesis unfolding dispatch_SquareClick[OF ms mv] by simp
  qed
  with v show ?thesis by auto
qed

theorem ignored_click_no_op_witness:
  "dispatch drawn_game (SquareClick 4) = Inr (drawn_game\<lparr>memo := Some (9, None)\<rparr>)"
proof -
  let ?v = "\<lparr>xIsNext = False, currentSquares = 9, result = None, winner = Null,
             winningLine = [], isDraw = True\<rparr>"
  let ?s1 = "drawn_game\<lparr>memo := Some (9, None)\<rparr>"
  have a: "active drawn_game = [MarkX, MarkO, MarkX, MarkX, MarkO, MarkO, MarkO, MarkX, MarkX]"
    by (simp add: active_def drawn_game_def)
  have 1: "state_ok drawn_game"
    by (simp add: state_ok_def refs_ok_def move_ok_def memo_sound_def drawn_game_def
        calculateWinner_def lines_def js_get_def)
  have 2: "is_board (active drawn_game)" unfolding a by (simp add: is_board_def)
  have 3: "(4::nat) < 9" by simp
  have 4: "App drawn_game = Inr (?v, ?s1)" by code_simp
  have 5: "statusBadge ?v \<noteq> ''next''" by (simp add: statusBadge_def)
  from ignored_click_no_op[OF 1 2 3] 4 5 show ?thesis by auto
qed

text \<open>
  Claim C4. A click that places a mark keeps the snapshots up to the current move,
  drops the later ones, appends the new board and makes it the current move. From a
  history of six snapshots, a jump to move 2 and then such a click leave four
  snapshots: the former snapshots 0, 1, 2 and the new board.
\<close>

theorem move_truncates_history:
  assumes "state_ok s"
  shows "(calculateWinner (active s) = None \<and> \<not> truthy (js_get (active s) i) \<longrightarrow>
           (\<exists>s'. dispatch s (SquareClick i) = Inr s'
              \<and> history s' = take (nat (currentMove s) + 1) (history s) @ [last (history s')]
              \<and> boards s' = take (nat (currentMove s) + 1) (boards s)
                              @ [js_set (active s) i (turn s)]
              \<and> currentMove s' = int (length (history s')) - 1
              \<and> currentMove s' = currentMove s + 1))
       \<and> (length (history s) = 6 \<and> calculateWinner (boards s ! 2) = None
            \<and> \<not> truthy (js_get (boards s ! 2) i) \<longrightarrow>
           (\<exists>s1 s2. dispatch s (JumpTo 2) = Inr s1 \<and> dispatch s1 (SquareClick i) = Inr s2
              \<and> length (boards s2) = 4 \<and> take 3 (boards s2) = take 3 (boards s)
              \<and> boards s2 ! 3 = js_set (boards s ! 2) i MarkX
              \<and> currentMove s2 = 3))"
proof (intro conjI impI)
  have r: "refs_ok s" and ms: "memo_sound s" and mv: "move_ok s"
    using assms unfolding state_ok_def by simp_all
  have n: "nat (currentMove s) < length (history s)"
    using mv unfolding move_ok_def by auto
  {
    assume "calculateWinner (active s) = None \<and> \<not> truthy (js_get (active s) i)"
    then have "dispatch s (SquareClick i) = Inr (placed s i)"
      by (simp add: dispatch_SquareClick[OF ms mv])
    moreover have "currentMove (placed s i) = int (length (history (placed s i))) - 1"
      using mv n unfolding move_ok_def by simp
    ultimately show "\<exists>s'. dispatch s (SquareClick i) = Inr s'
              \<and> history s' = take (nat (currentMove s) + 1) (history s) @ [last (history s')]
              \<and> boards s' = take (nat (currentMove s) + 1) (boards s)
                              @ [js_set (active s) i (turn s)]
              \<and> currentMove s' = int (length (history s')) - 1
              \<and> currentMove s' = currentMove s + 1"
      using boards_placed[OF r mv, of i] by simp
  }
  {
    assume h: "length (history s) = 6 \<and> calculateWinner (boards s ! 2) = None
            \<and> \<not> truthy (js_get (boards s ! 2) i)"
    let ?s1 = "jumpTo (rendered s) 2"
    have msr: "memo_sound ?s1" using memo_sound_rendered[OF r mv] by simp
    have r1: "refs_ok ?s1" using r by simp
    have mv1: "move_ok ?s1" using h unfolding move_ok_def by simp
    have a1: "active ?s1 = boards s ! 2"
      unfolding active_boards[OF mv1] by simp
    have t1: "turn ?s1 = MarkX" by (simp add: turn_def)
    have b: "boards (placed ?s1 i) = take 3 (boards s) @ [js_set (boards s ! 2) i MarkX]"
      unfolding boards_placed[OF r1 mv1] a1 t1 by simp
    have l: "length (boards s) = 6" using h unfolding boards_def by simp
    have "dispatch s (JumpTo 2) = Inr ?s1" by (rule dispatch_JumpTo[OF ms mv])
    moreover have "dispatch ?s1 (SquareClick i) = Inr (placed ?s1 i)"
      using h unfolding dispatch_SquareClick[OF msr mv1] a1 by simp
    moreover have "length (boards (placed ?s1 i)) = 4"
      "take 3 (boards (placed ?s1 i)) = take 3 (boards s)"
      "boards (placed ?s1 i) ! 3 = js_set (boards s ! 2) i MarkX"
      unfolding b using l by (simp_all add: nth_append)
    moreover have "currentMove (placed ?s1 i) = 3" by simp
    ultimately show "\<exists>s1 s2. dispatch s (JumpTo 2) = Inr s1 \<and> dispatch s1 (SquareClick i) = Inr s2
              \<and> length (boards s2) = 4 \<and> take 3 (boards s2) = take 3 (boards s)
              \<and> boards s2 ! 3 = js_set (boards s ! 2) i MarkX
              \<and> currentMove s2 = 3"
      by blast
  }
qed

theorem move_truncates_history_witness:
  "(\<exists>s'. dispatch open_game (SquareClick 2) = Inr s'
      \<and> boards s' = boards open_game @ [[MarkX, MarkX, MarkO, Null, MarkO, Null, Null, MarkO, MarkX]]
      \<and> currentMove s' = 6)
   \<and> (\<exists>s1 s2. dispatch open_game (JumpTo 2) = Inr s1 \<and> dispatch s1 (SquareClick 2) = Inr s2
        \<and> length (boards s2) = 4
        \<and> take 3 (boards s2) =
            [[Null, Null, Null, Null, Null, Null, Null, Null, Null],
             [MarkX, Null, Null, Null, Null, Null, Null, Null, Null],
             [MarkX, Null, Null, Null, MarkO, Null, Null, Null, Null]]
        \<and> boards s2 ! 3 = [MarkX, Null, MarkX, Null, MarkO, Null, Null, Null, Null]
        \<and> currentMove s2 = 3)"
proof -
  have ok: "state_ok open_game"
    by (simp add: state_ok_def refs_ok_def move_ok_def memo_sound_def open_game_def
        calculateWinner_def lines_def js_get_def)
  have a: "active open_game = [MarkX, MarkX, Null, Null, MarkO, Null, Null, MarkO, MarkX]"
    and bs: "boards open_game =
        [[Null, Null, Null, Null, Null, Null, Null, Null, Null],
         [MarkX, Null, Null, Null, Null, Null, Null, Null, Null],
         [MarkX, Null, Null, Null, MarkO, Null, Null, Null, Null],
         [MarkX, MarkX, Null, Null, MarkO, Null, Null, Null, Null],
         [MarkX, MarkX, Null, Null, MarkO, Null, Null, MarkO, Null],
         [MarkX, MarkX, Null, Null, MarkO, Null, Null, MarkO, MarkX]]"
    and cm: "currentMove open_game = 5" and t: "turn open_game = MarkO"
    and len: "length (history open_game) = 6"
    by (simp_all add: active_def boards_def open_game_def turn_def)
  have h1: "calculateWinner (active open_game) = None \<and> \<not> truthy (js_get (active open_game) 2)"
    unfolding a by (simp add: calculateWinner_def lines_def js_get_def)
  have h2: "length (history open_game) = 6 \<and> calculateWinner (boards open_game ! 2) = None
            \<and> \<not> truthy (js_get (boards open_game ! 2) 2)"
    unfolding bs len by (simp add: calculateWinner_def lines_def js_get_def)
  from move_truncates_history[OF ok, of 2] h1 obtain s' where
    "dispatch open_game (SquareClick 2) = Inr s'"
    "boards s' = take (nat (currentMove open_game) + 1) (boards open_game)
                   @ [js_set (active open_game) 2 (turn open_game)]"
    "currentMove s' = currentMove open_game + 1"
    by blast
  then have 1: "\<exists>s'. dispatch open_game (SquareClick 2) = Inr s'
      \<and> boards s' = boards open_game @ [[MarkX, MarkX, MarkO, Null, MarkO, Null, Null, MarkO, MarkX]]
      \<and> currentMove s' = 6"
    unfolding a t cm by (simp add: bs js_set_def)
  from move_truncates_history[OF ok, of 2] h2 obtain s1 s2 where
    "dispatch open_game (JumpTo 2) = Inr s1" "dispatch s1 (SquareClick 2) = Inr s2"
    "length (boards s2) = 4" "take 3 (boards s2) = take 3 (boards open_game)"
    "boards s2 ! 3 = js_set (boards open_game ! 2) 2 MarkX" "currentMove s2 = 3"
    by blast
  then have 2: "\<exists>s1 s2. dispatch open_game (JumpTo 2) = Inr s1 \<and> dispatch s1 (SquareClick 2) = Inr s2
        \<and> length (boards s2) = 4
        \<and> take 3 (boards s2) =
            [[Null, Null, Null, Null, Null, Null, Null, Null, Null],
             [MarkX, Null, Null, Null, Null, Null, Null, Null, Null],
             [MarkX, Null, Null, Null, MarkO, Null, Null, Null, Null]]
        \<and> boards s2 ! 3 = [MarkX, Null, MarkX, Null, MarkO, Null, Null, Null, Null]
        \<and> currentMove s2 = 3"
    unfolding bs by (simp add: js_set_def)
  from 1 2 show ?thesis by (rule conjI)
qed

text \<open>
  Claim C5. \<^verbatim>\<open>'X'\<close> is to move exactly when the current move is even, and a click
  that places a mark writes the mark of the player to move. After a restart and any
  clicks, snapshot \<open>k\<close> of the history is snapshot \<open>k - 1\<close> with \<^verbatim>\<open>'X'\<close> written on
  an empty square when \<open>k\<close> is odd, and with \<^verbatim>\<open>'O'\<close> when \<open>k\<close> is even.
\<close>

theorem marks_alternate:
  assumes "memo_sound s0"
  shows "(App s = Inr (v, s1) \<longrightarrow> xIsNext v = even (currentMove s))
     \<and> (App s = Inr (v, s1) \<and> \<not> truthy (winner v)
          \<and> \<not> truthy (js_get (heap s ! currentSquares v) i) \<longrightarrow>
          last (heap (handleSquareClick s1 v i))
            = js_set (heap s ! currentSquares v) i
                (if even (currentMove s) then MarkX else MarkO))
     \<and> (\<exists>s'. run (resetGame s0) (map SquareClick ks) = Inr s'
          \<and> (\<forall>k. 1 \<le> k \<and> k < length (boards s') \<longrightarrow>
               (\<exists>i. \<not> truthy (js_get (boards s' ! (k - 1)) i)
                  \<and> boards s' ! k
                      = js_set (boards s' ! (k - 1)) i (if odd k then MarkX else MarkO))))"
proof (intro conjI)
  show "App s = Inr (v, s1) \<longrightarrow> xIsNext v = even (currentMove s)"
    unfolding App_def by (auto simp: Let_def js_rem_2 split: option.splits)
next
  show "App s = Inr (v, s1) \<and> \<not> truthy (winner v)
          \<and> \<not> truthy (js_get (heap s ! currentSquares v) i) \<longrightarrow>
          last (heap (handleSquareClick s1 v i))
            = js_set (heap s ! currentSquares v) i
                (if even (currentMove s) then MarkX else MarkO)"
  proof
    assume h: "App s = Inr (v, s1) \<and> \<not> truthy (winner v)
          \<and> \<not> truthy (js_get (heap s ! currentSquares v) i)"
    then have "heap s1 = heap s" "xIsNext v = even (currentMove s)"
      unfolding App_def by (auto simp: Let_def js_rem_2 split: option.splits)
    with h show "last (heap (handleSquareClick s1 v i))
            = js_set (heap s ! currentSquares v) i
                (if even (currentMove s) then MarkX else MarkO)"
      by (simp add: handleSquareClick_def handlePlay_def Let_def nth_append)
  qed
next
  have "state_ok (resetGame s0)" using assms by (rule state_ok_resetGame)
  moreover have "history (resetGame s0) \<noteq> []"
    "currentMove (resetGame s0) = int (length (history (resetGame s0))) - 1"
    by (simp_all add: resetGame_def)
  moreover have "\<forall>k. 1 \<le> k \<and> k < length (boards (resetGame s0)) \<longrightarrow>
           (\<exists>i. \<not> truthy (js_get (boards (resetGame s0) ! (k - 1)) i)
              \<and> boards (resetGame s0) ! k
                 = js_set (boards (resetGame s0) ! (k - 1)) i (if odd k then MarkX else MarkO))"
    unfolding boards_resetGame by simp
  ultimately show "\<exists>s'. run (resetGame s0) (map SquareClick ks) = Inr s'
          \<and> (\<forall>k. 1 \<le> k \<and> k < length (boards s') \<longrightarrow>
               (\<exists>i. \<not> truthy (js_get (boards s' ! (k - 1)) i)
                  \<and> boards s' ! k
                      = js_set (boards s' ! (k - 1)) i (if odd k then MarkX else MarkO)))"
    by (rule clicks_from_reset)
qed

theorem marks_alternate_witness:
  "(\<exists>v s1. App initial = Inr (v, s1) \<and> xIsNext v
       \<and> last (heap (handleSquareClick s1 v 4))
           = [Null, Null, Null, Null, MarkX, Null, Null, Null, Null])
   \<and> (\<exists>s'. run (resetGame initial) (map SquareClick [0, 4, 1]) = Inr s'
         \<and> boards s' ! 1 = js_set (boards s' ! 0) 0 MarkX
         \<and> (\<exists>i. \<not> truthy (js_get (boards s' ! 1) i)
                \<and> boards s' ! 2 = js_set (boards s' ! 1) i MarkO))"
proof -
  let ?v = "\<lparr>xIsNext = True, currentSquares = 0, result = None, winner = Null,
             winningLine = [], isDraw = False\<rparr>"
  let ?s1 = "initial\<lparr>memo := Some (0, None)\<rparr>"
  let ?s' = "\<lparr>heap =
        [[Null, Null, Null, Null, Null, Null, Null, Null, Null],
         [Null, Null, Null, Null, Null, Null, Null, Null, Null],
         [MarkX, Null, Null, Null, Null, Null, Null, Null, Null],
         [MarkX, Null, Null, Null, MarkO, Null, Null, Null, Null],
         [MarkX, MarkX, Null, Null, MarkO, Null, Null, Null, Null]],
        history = [1, 2, 3, 4], currentMove = 3, isAscending = True,
        memo = Some (3, None)\<rparr>"
  have m: "memo_sound initial" by (simp add: memo_sound_def initial_def)
  have a: "App initial = Inr (?v, ?s1)" by code_simp
  have r: "run (resetGame initial) (map SquareClick [0, 4, 1]) = Inr ?s'" by code_simp
  have e: "\<not> truthy (winner ?v) \<and> \<not> truthy (js_get (heap initial ! currentSquares ?v) 4)"
    by (simp add: initial_def js_get_def)
  have c: "js_set (heap initial ! currentSquares ?v) 4
             (if even (currentMove initial) then MarkX else MarkO)
           = [Null, Null, Null, Null, MarkX, Null, Null, Null, Null]"
    by code_simp
  note t = marks_alternate[OF m, of initial ?v ?s1 4 "[0, 4, 1]"]
  from t a have "xIsNext ?v = even (currentMove initial)" by blast
  then have x: "xIsNext ?v" by (simp add: initial_def)
  from t a e have "last (heap (handleSquareClick ?s1 ?v 4))
      = js_set (heap initial ! currentSquares ?v) 4
          (if even (currentMove initial) then MarkX else MarkO)"
    by blast
  then have w: "last (heap (handleSquareClick ?s1 ?v 4))
      = [Null, Null, Null, Null, MarkX, Null, Null, Null, Null]"
    unfolding c .
  from t obtain s' where s': "run (resetGame initial) (map SquareClick [0, 4, 1]) = Inr s'"
    and k: "\<forall>k. 1 \<le> k \<and> k < length (boards s') \<longrightarrow>
               (\<exists>i. \<not> truthy (js_get (boards s' ! (k - 1)) i)
                  \<and> boards s' ! k
                      = js_set (boards s' ! (k - 1)) i (if odd k then MarkX else MarkO))"
    by blast
  from s' r have eq: "s' = ?s'" by simp
  have "1 \<le> (2::nat) \<and> 2 < length (boards s')" unfolding eq by (simp add: boards_def)
  with k have "\<exists>i. \<not> truthy (js_get (boards s' ! (2 - 1)) i)
                  \<and> boards s' ! 2
                      = js_set (boards s' ! (2 - 1)) i (if odd (2::nat) then MarkX else MarkO)"
    by blast
  then have 2: "\<exists>i. \<not> truthy (js_get (boards s' ! 1) i)
                \<and> boards s' ! 2 = js_set (boards s' ! 1) i MarkO"
    by simp
  have b: "boards s' ! 1 = js_set (boards s' ! 0) 0 MarkX"
    unfolding eq by (simp add: boards_def js_set_def)
  from a x w have 1: "\<exists>v s1. App initial = Inr (v, s1) \<and> xIsNext v
       \<and> last (heap (handleSquareClick s1 v 4))
           = [Null, Null, Null, Null, MarkX, Null, Null, Null, Null]"
    by blast
  from s' b 2 have "\<exists>s'. run (resetGame initial) (map SquareClick [0, 4, 1]) = Inr s'
         \<and> boards s' ! 1 = js_set (boards s' ! 0) 0 MarkX
         \<and> (\<exists>i. \<not> truthy (js_get (boards s' ! 1) i)
                \<and> boards s' ! 2 = js_set (boards s' ! 1) i MarkO)"
    by blast
  with 1 show ?thesis by (rule conjI)
qed

text \<open>
  Claim C6. After any events from the initial state, what a rendering reports (the
  winner, its line, the draw) is \<^verbatim>\<open>calculateWinner\<close> and the draw test of the active
  snapshot, whatever \<^verbatim>\<open>useMemo\<close> remembers; the rendering writes nothing into the
  history. When the game is won, a jump to a snapshot with no complete triple reports
  no winner and no draw, and a click on an empty square of it places a mark again.
\<close>

theorem status_follows_active_board:
  assumes "run initial es = Inr s"
  shows "(App s = Inr (v, s1) \<longrightarrow>
            result v = calculateWinner (active s)
            \<and> winner v = (case calculateWinner (active s) of None \<Rightarrow> Null | Some w \<Rightarrow> player w)
            \<and> isDraw v = (calculateWinner (active s) = None \<and> every_Boolean (active s))
            \<and> history s1 = history s \<and> currentMove s1 = currentMove s \<and> heap s1 = heap s)
     \<and> (App s = Inr (v, s1) \<and> statusBadge v = ''win''
          \<and> 0 \<le> m \<and> m < int (length (history s))
          \<and> calculateWinner (boards s ! nat m) = None \<and> js_get (boards s ! nat m) i = Null \<longrightarrow>
          (\<exists>s2 v2 s3 s4.
              dispatch s (JumpTo m) = Inr s2
              \<and> App s2 = Inr (v2, s3) \<and> result v2 = None \<and> statusBadge v2 = ''next''
              \<and> dispatch s2 (SquareClick i) = Inr s4
              \<and> boards s4 = take (nat m + 1) (boards s)
                   @ [(boards s ! nat m)[i := (if even m then MarkX else MarkO)]]
              \<and> currentMove s4 = m + 1))"
proof -
  have st: "store_ok s" using store_ok_initial assms by (rule store_ok_run)
  then have r: "refs_ok s" and ms: "memo_sound s" unfolding store_ok_def by simp_all
  have first: "result v = calculateWinner (active s)
            \<and> winner v = (case calculateWinner (active s) of None \<Rightarrow> Null | Some w \<Rightarrow> player w)
            \<and> isDraw v = (calculateWinner (active s) = None \<and> every_Boolean (active s))
            \<and> history s1 = history s \<and> currentMove s1 = currentMove s \<and> heap s1 = heap s"
    if a: "App s = Inr (v, s1)"
  proof -
    from a have "js_index (history s) (currentMove s) \<noteq> None"
      unfolding App_def by (auto split: option.splits)
    then have mv: "move_ok s" unfolding js_index_def move_ok_def by (simp split: if_splits)
    from a show ?thesis unfolding App_sound[OF ms mv] by auto
  qed
  have second: "\<exists>s2 v2 s3 s4.
              dispatch s (JumpTo m) = Inr s2
              \<and> App s2 = Inr (v2, s3) \<and> result v2 = None \<and> statusBadge v2 = ''next''
              \<and> dispatch s2 (SquareClick i) = Inr s4
              \<and> boards s4 = take (nat m + 1) (boards s)
                   @ [(boards s ! nat m)[i := (if even m then MarkX else MarkO)]]
              \<and> currentMove s4 = m + 1"
    if h: "App s = Inr (v, s1) \<and> statusBadge v = ''win''
          \<and> 0 \<le> m \<and> m < int (length (history s))
          \<and> calculateWinner (boards s ! nat m) = None \<and> js_get (boards s ! nat m) i = Null"
  proof -
    from h have "js_index (history s) (currentMove s) \<noteq> None"
      unfolding App_def by (auto split: option.splits)
    then have mv: "move_ok s" unfolding js_index_def move_ok_def by (simp split: if_splits)
    let ?s2 = "jumpTo (rendered s) m"
    let ?b = "boards s ! nat m"
    have ms2: "memo_sound ?s2" using memo_sound_rendered[OF r mv] by simp
    have r2: "refs_ok ?s2" using r by simp
    have mv2: "move_ok ?s2" using h unfolding move_ok_def by simp
    have a2: "active ?s2 = ?b" unfolding active_boards[OF mv2] by simp
    have i: "i < length ?b" "?b ! i = Null"
      using h unfolding js_get_def by (auto split: if_splits)
    then have "Null \<in> set ?b" by (metis nth_mem)
    then have ne: "\<not> every_Boolean ?b"
      unfolding every_Boolean_def list_all_iff by auto
    have set: "js_set ?b i (turn ?s2) = ?b[i := (if even m then MarkX else MarkO)]"
      using i(1) unfolding js_set_def turn_def by simp
    obtain v2 where v2: "App ?s2 = Inr (v2, rendered ?s2)"
      using App_rendered[OF ms2 mv2] by blast
    then have "result v2 = None" "statusBadge v2 = ''next''"
      using h ne unfolding App_sound[OF ms2 mv2] a2 by (auto simp: statusBadge_def)
    moreover have "dispatch s (JumpTo m) = Inr ?s2" by (rule dispatch_JumpTo[OF ms mv])
    moreover have "dispatch ?s2 (SquareClick i) = Inr (placed ?s2 i)"
      using h unfolding dispatch_SquareClick[OF ms2 mv2] a2 by simp
    moreover have "boards (placed ?s2 i) = take (nat m + 1) (boards s)
                   @ [?b[i := (if even m then MarkX else MarkO)]]"
      unfolding boards_placed[OF r2 mv2] a2 set by simp
    moreover have "currentMove (placed ?s2 i) = m + 1" by simp
    ultimately show ?thesis using v2 by blast
  qed
  from first second show ?thesis by blast
qed

theorem status_follows_active_board_witness:
  "(\<exists>v s1. App won_game = Inr (v, s1) \<and> statusBadge v = ''win''
       \<and> result v = Some \<lparr>player = MarkX, line = [0, 1, 2]\<rparr>)
   \<and> (\<exists>s2 v2 s3 s4.
         dispatch won_game (JumpTo 2) = Inr s2
         \<and> App s2 = Inr (v2, s3) \<and> result v2 = None \<and> statusBadge v2 = ''next''
         \<and> dispatch s2 (SquareClick 5) = Inr s4
         \<and> boards s4 =
             [[Null, Null, Null, Null, Null, Null, Null, Null, Null],
              [MarkX, Null, Null, Null, Null, Null, Null, Null, Null],
              [MarkX, Null, Null, Null, MarkO, Null, Null, Null, Null],
              [MarkX, Null, Null, Null, MarkO, MarkX, Null, Null, Null]]
         \<and> currentMove s4 = 3)"
proof -
  let ?w = "Some \<lparr>player = MarkX, line = [0, 1, 2]\<rparr>"
  let ?v = "\<lparr>xIsNext = False, currentSquares = 5, result = ?w, winner = MarkX,
             winningLine = [0, 1, 2], isDraw = False\<rparr>"
  let ?s1 = "won_game\<lparr>memo := Some (5, ?w)\<rparr>"
  have a: "App won_game = Inr (?v, ?s1)" by code_simp
  have bs: "boards won_game =
        [[Null, Null, Null, Null, Null, Null, Null, Null, Null],
         [MarkX, Null, Null, Null, Null, Null, Null, Null, Null],
         [MarkX, Null, Null, Null, MarkO, Null, Null, Null, Null],
         [MarkX, MarkX, Null, Null, MarkO, Null, Null, Null, Null],
         [MarkX, MarkX, Null, Null, MarkO, Null, Null, MarkO, Null],
         [MarkX, MarkX, MarkX, Null, MarkO, Null, Null, MarkO, Null]]"
    and act: "active won_game = [MarkX, MarkX, MarkX, Null, MarkO, Null, Null, MarkO, Null]"
    by (simp_all add: boards_def active_def won_game_def)
  have win: "statusBadge ?v = ''win''" by (simp add: statusBadge_def)
  have h: "App won_game = Inr (?v, ?s1) \<and> statusBadge ?v = ''win''
          \<and> (0::int) \<le> 2 \<and> 2 < int (length (history won_game))
          \<and> calculateWinner (boards won_game ! nat 2) = None
          \<and> js_get (boards won_game ! nat 2) 5 = Null"
    using a win unfolding bs
    by (simp add: won_game_def calculateWinner_def lines_def js_get_def)
  note t = status_follows_active_board[OF won_game_reachable, of ?v ?s1 2 5]
  from t a have "result ?v = calculateWinner (active won_game)" by blast
  with a win have 1: "\<exists>v s1. App won_game = Inr (v, s1) \<and> statusBadge v = ''win''
       \<and> result v = Some \<lparr>player = MarkX, line = [0, 1, 2]\<rparr>"
    by (intro exI[of _ ?v] exI[of _ ?s1]) simp
  from t h obtain s2 v2 s3 s4 where
    "dispatch won_game (JumpTo 2) = Inr s2"
    "App s2 = Inr (v2, s3)" "result v2 = None" "statusBadge v2 = ''next''"
    "dispatch s2 (SquareClick 5) = Inr s4"
    "boards s4 = take (nat 2 + 1) (boards won_game)
       @ [(boards won_game ! nat 2)[5 := (if even (2::int) then MarkX else MarkO)]]"
    "currentMove s4 = 2 + 1"
    by blast
  then have 2: "\<exists>s2 v2 s3 s4.
         dispatch won_game (JumpTo 2) = Inr s2
         \<and> App s2 = Inr (v2, s3) \<and> result v2 = None \<and> statusBadge v2 = ''next''
         \<and> dispatch s2 (SquareClick 5) = Inr s4
         \<and> boards s4 =
             [[Null, Null, Null, Null, Null, Null, Null, Null, Null],
              [MarkX, Null, Null, Null, Null, Null, Null, Null, Null],
              [MarkX, Null, Null, Null, MarkO, Null, Null, Null, Null],
              [MarkX, Null, Null, Null, MarkO, MarkX, Null, Null, Null]]
         \<and> currentMove s4 = 3"
    unfolding bs by simp
  from 1 2 show ?thesis by (rule conjI)
qed

text \<open>
  Claim C7. \<^verbatim>\<open>jumpTo\<close> with the index of a snapshot makes that index the current
  move and leaves the history and every snapshot as they are.
\<close>

theorem jumpTo_sets_currentMove:
  assumes "0 \<le> move" and "move < int (length (history s))"
  shows "currentMove (jumpTo s move) = move \<and> history (jumpTo s move) = history s
         \<and> heap (jumpTo s move) = heap s \<and> boards (jumpTo s move) = boards s
         \<and> js_index (history (jumpTo s move)) (currentMove (jumpTo s move))
             = Some (history s ! nat move)"
  using assms by (simp add: js_index_def)

theorem jumpTo_sets_currentMove_witness:
  "currentMove (jumpTo won_game 2) = 2 \<and> history (jumpTo won_game 2) = [0, 1, 2, 3, 4, 5]
   \<and> heap (jumpTo won_game 2) = heap won_game
   \<and> js_index (history (jumpTo won_game 2)) (currentMove (jumpTo won_game 2)) = Some 2"
proof -
  have 1: "(0::int) \<le> 2" by simp
  have 2: "2 < int (length (history won_game))" by (simp add: won_game_def)
  show ?thesis using jumpTo_sets_currentMove[OF 1 2] by (simp add: won_game_def)
qed

text \<open>
  Claim C8. Every event of the interface (a click on one of the nine squares, a jump
  to a listed move, a restart, the order toggle) succeeds on a well-formed state and
  keeps the invariant of the history: snapshot 0 is the empty board, every snapshot
  has nine squares, and each snapshot differs from the one before it on at most one
  square, which went from \<^verbatim>\<open>null\<close> to a mark. The state stays well formed.
\<close>

theorem events_keep_history_inv:
  assumes "state_ok s" and "history_inv s" and "in_range s e"
  shows "\<exists>s'. dispatch s e = Inr s' \<and> state_ok s' \<and> history_inv s'"
proof -
  have r: "refs_ok s" and ms: "memo_sound s" and mv: "move_ok s"
    using assms(1) unfolding state_ok_def by simp_all
  have msr: "memo_sound (rendered s)" using r mv by (rule memo_sound_rendered)
  have okr: "state_ok (rendered s)" using msr r mv unfolding state_ok_def by simp
  have invr: "history_inv (rendered s)"
    using assms(2) history_inv_cong[of "rendered s" s] by simp
  show ?thesis
  proof (cases e)
    case (SquareClick i)
    then have i: "i < 9" using assms(3) by simp
    show ?thesis
    proof (cases "calculateWinner (active s) \<noteq> None \<or> truthy (js_get (active s) i)")
      case True
      then show ?thesis
        unfolding SquareClick dispatch_SquareClick[OF ms mv] using okr invr by simp
    next
      case False
      then have "history_inv (placed s i)"
        using history_inv_placed[OF r mv assms(2) i] by simp
      with False show ?thesis
        unfolding SquareClick dispatch_SquareClick[OF ms mv]
        using state_ok_placed[OF r mv, of i] by simp
    qed
  next
    case (JumpTo m)
    then have "move_ok (jumpTo (rendered s) m)"
      using assms(3) unfolding move_ok_def by simp
    moreover have "history_inv (jumpTo (rendered s) m)"
      using assms(2) history_inv_cong[of "jumpTo (rendered s) m" s] by simp
    ultimately show ?thesis
      unfolding JumpTo dispatch_JumpTo[OF ms mv]
      using msr r by (simp add: state_ok_def)
  next
    case Restart
    show ?thesis
      unfolding Restart dispatch_Restart[OF ms mv]
      using state_ok_resetGame[OF msr] history_inv_resetGame by simp
  next
    case ToggleOrder
    have "state_ok ((rendered s)\<lparr>isAscending := \<not> isAscending s\<rparr>)"
      using okr unfolding state_ok_def refs_ok_def memo_sound_def move_ok_def
      by (auto split: option.splits)
    moreover have "history_inv ((rendered s)\<lparr>isAscending := \<not> isAscending s\<rparr>)"
      using invr by (simp add: history_inv_def boards_def)
    ultimately show ?thesis
      unfolding ToggleOrder dispatch_ToggleOrder[OF ms mv] by simp
  qed
qed

theorem events_keep_history_inv_witness:
  "\<exists>s'. dispatch initial (SquareClick 4) = Inr s'
      \<and> boards s' = [replicate 9 Null, (replicate 9 Null)[4 := MarkX]]
      \<and> state_ok s' \<and> history_inv s'"
proof -
  let ?s' = "\<lparr>heap =
        [[Null, Null, Null, Null, Null, Null, Null, Null, Null],
         [Null, Null, Null, Null, MarkX, Null, Null, Null, Null]],
        history = [0, 1], currentMove = 1, isAscending = True,
        memo = Some (0, None)\<rparr>"
  have d: "dispatch initial (SquareClick 4) = Inr ?s'" by code_simp
  have b: "boards ?s' = [replicate 9 Null, (replicate 9 Null)[4 := MarkX]]"
    by (simp add: boards_def eval_nat_numeral)
  have "in_range initial (SquareClick 4)" by simp
  from events_keep_history_inv[OF state_ok_initial history_inv_initial this] d
  have "state_ok ?s' \<and> history_inv ?s'" by simp
  with d b show ?thesis by blast
qed

text \<open>
  Claim C9. \<^verbatim>\<open>resetGame\<close>, in any state, leaves a history of one snapshot, the
  empty board, and the current move 0, as in the initial state.
\<close>

theorem resetGame_restores_initial:
  "boards (resetGame s) = [replicate 9 Null] \<and> length (history (resetGame s)) = 1
   \<and> currentMove (resetGame s) = 0
   \<and> boards (resetGame s) = boards initial \<and> currentMove (resetGame s) = currentMove initial"
  by (simp add: boards_resetGame) (simp add: resetGame_def initial_def boards_def)

text \<open>
  Claim C10. \<^verbatim>\<open>jumpTo\<close> checks no bounds: any integer becomes the current move
  and the history stays as it is. When the integer is not the index of a snapshot,
  \<^verbatim>\<open>history[currentMove]\<close> is \<^verbatim>\<open>undefined\<close> afterwards (and the next rendering
  throws).
\<close>

theorem jumpTo_no_bounds_check:
  "currentMove (jumpTo s m) = m \<and> history (jumpTo s m) = history s \<and> heap (jumpTo s m) = heap s
   \<and> (m < 0 \<or> int (length (history s)) \<le> m \<longrightarrow>
        js_index (history (jumpTo s m)) (currentMove (jumpTo s m)) = None
        \<and> App (jumpTo s m) = Inl TypeError)"
  by (auto simp: js_index_def App_def)

theorem jumpTo_no_bounds_check_witness:
  "currentMove (jumpTo won_game 6) = 6 \<and> history (jumpTo won_game 6) = history won_game
   \<and> js_index (history (jumpTo won_game 6)) (currentMove (jumpTo won_game 6)) = None
   \<and> App (jumpTo won_game 6) = Inl TypeError"
proof -
  have "int (length (history won_game)) \<le> 6" by (simp add: won_game_def)
  then show ?thesis using jumpTo_no_bounds_check[of won_game 6] by simp
qed

end
